theory Spec2Isabelle
  imports Main "HOL-Library.Word"
begin

unbundle bit_operations_syntax

section \<open>The DS1307new object and the clock chip\<close>

text \<open>
  The library targets an 8-bit AVR: \<open>uint8_t\<close>, \<open>uint16_t\<close> and \<open>uint32_t\<close> are
  words of 8, 16 and 32 bits whose arithmetic wraps around; \<open>long\<close> has 32 bits.
  Where C promotes \<open>uint8_t\<close> operands to \<open>int\<close> and the result is stored in a
  \<open>uint8_t\<close> again, the stored value is the 8-bit wrap-around result, and likewise
  for 16 bits.
\<close>

type_synonym u8 = "8 word"
type_synonym u16 = "16 word"
type_synonym u32 = "32 word"

text \<open>
  The record holds the data members of class \<open>DS1307new\<close> (DS1307new.h) that change
  after construction, followed by the state of the chip at the other end of the I2C
  bus: whether it acknowledges its address, and its register file, addressed by the
  register pointer that \<open>getRAM\<close> and \<open>setRAM\<close> send. There is one object, \<open>RTC\<close>.
\<close>

record DS1307new =
  second :: u8
  minute :: u8
  hour :: u8
  dow :: u8
  day :: u8
  month :: u8
  year :: u16
  ctrl :: u8
  ydn :: u16
  cdn :: u16
  time2000 :: u32
  alarmTriggeredTime :: "32 word"
  chip_ack :: bool
  chip_reg :: "u8 \<Rightarrow> u8"

text \<open>The members that the constructor sets once and nothing changes afterwards.\<close>

definition aspectIsSetToken :: u8 where
  "aspectIsSetToken = 0xa5"

definition timeIsSetAddress :: u8 where
  "timeIsSetAddress = 0"

definition alarmBitsAddress :: u8 where
  "alarmBitsAddress = 1"

definition alarmCodeAddressOffset :: u8 where
  "alarmCodeAddressOffset = 2"

section \<open>NV-RAM access\<close>

text \<open>
  \<open>getRAM\<close> and \<open>setRAM\<close> for a transfer of one byte (\<open>rtc_quantity = 1\<close>, the only
  size the alarm functions use). \<open>getRAM\<close> takes the caller's buffer and gives back
  its content after the call: the byte read, or the buffer as it was when the chip
  does not acknowledge (\<open>Wire.endTransmission() != 0\<close>). A chip that does not
  acknowledge stores nothing.
\<close>

definition getRAM :: "DS1307new \<Rightarrow> u8 \<Rightarrow> u8 \<Rightarrow> u8" where
  "getRAM st rtc_addr rtc_ram =
     (let rtc_addr = rtc_addr AND 63;
          rtc_addr = rtc_addr + 8
      in if \<not> chip_ack st then rtc_ram else chip_reg st rtc_addr)"

definition setRAM :: "DS1307new \<Rightarrow> u8 \<Rightarrow> u8 \<Rightarrow> DS1307new" where
  "setRAM st rtc_addr rtc_ram =
     (let rtc_addr = rtc_addr AND 63;
          rtc_addr = rtc_addr + 8
      in if chip_ack st then st\<lparr>chip_reg := (chip_reg st)(rtc_addr := rtc_ram)\<rparr> else st)"

section \<open>Alarms\<close>

text \<open>
  \<open>clearAlarm\<close> is declared \<open>boolean\<close> but has no \<open>return\<close>; the model gives the
  state only. \<open>mask << dayOfWeek\<close> stored in a \<open>uint8_t\<close> is the 8-bit left shift
  for a shift count below 16; from 16 on C leaves the shift of a 16-bit \<open>int\<close>
  undefined, and the 0 of the model stands for it. The days of the week are 0 to 6.
\<close>

definition clearAlarm :: "DS1307new \<Rightarrow> u8 \<Rightarrow> DS1307new" where
  "clearAlarm st dayOfWeek =
     (let value = 0xFF;
          st = setRAM st (alarmCodeAddressOffset + dayOfWeek) value;
          value = getRAM st alarmBitsAddress value;
          mask = (1 :: u8);
          mask = push_bit (unat dayOfWeek) mask;
          value = value - mask
      in setRAM st alarmBitsAddress value)"

definition isTimeSet :: "DS1307new \<Rightarrow> bool" where
  "isTimeSet st = (let value = getRAM st timeIsSetAddress 0 in value = aspectIsSetToken)"

text \<open>The two-argument \<open>setAlarm(dayOfWeek, alarmCode)\<close>.\<close>

definition setAlarm2 :: "DS1307new \<Rightarrow> u8 \<Rightarrow> u8 \<Rightarrow> DS1307new" where
  "setAlarm2 st dayOfWeek alarmCode =
     (let currentAlarmBits = getRAM st alarmBitsAddress 0;
          alarmBitMask = push_bit (unat dayOfWeek) (1 :: u8);
          currentAlarmBits = currentAlarmBits OR alarmBitMask;
          st = setRAM st alarmBitsAddress currentAlarmBits
      in setRAM st (alarmCodeAddressOffset + dayOfWeek) alarmCode)"

text \<open>
  The three-argument \<open>setAlarm(dayOfWeek, alarmHour, alarmMinutes)\<close>; the local
  \<open>alarmCode\<close> of its body is a function of its own here.
\<close>

definition alarmCode_of :: "u8 \<Rightarrow> u8 \<Rightarrow> u8" where
  "alarmCode_of alarmHour alarmMinutes = (alarmHour - 4) * 12 + alarmMinutes div 5"

definition setAlarm :: "DS1307new \<Rightarrow> u8 \<Rightarrow> u8 \<Rightarrow> u8 \<Rightarrow> DS1307new \<times> bool" where
  "setAlarm st dayOfWeek alarmHour alarmMinutes =
     (if alarmHour \<ge> 4 \<or> alarmHour < 21
      then (setAlarm2 st dayOfWeek (alarmCode_of alarmHour alarmMinutes), True)
      else (st, False))"

text \<open>
  \<open>isAlarmTime\<close>. The locals \<open>alarmHour\<close> (after \<open>alarmHour += 4\<close>) and
  \<open>alarmMinute\<close> are functions of the alarm code. \<open>micros()\<close> belongs to the Arduino
  core; its result at the moment of the call is the argument \<open>micros\<close>.
\<close>

definition alarmHour_of :: "u8 \<Rightarrow> u8" where
  "alarmHour_of alarmCode = (let alarmHour = alarmCode div 12 in alarmHour + 4)"

definition alarmMinute_of :: "u8 \<Rightarrow> u8" where
  "alarmMinute_of alarmCode =
     (let alarmHour = alarmCode div 12 in (alarmCode - alarmHour * 12) * 5)"

definition isAlarmTime :: "DS1307new \<Rightarrow> 32 word \<Rightarrow> DS1307new \<times> bool" where
  "isAlarmTime st micros =
     (let mask = (1 :: u8);
          currentAlarmBits = getRAM st alarmBitsAddress 0;
          currentDayOfWeek = dow st;
          currentDayOfWeekMask = push_bit (unat currentDayOfWeek) mask
      in if (currentAlarmBits AND currentDayOfWeekMask) > 0
         then
           (let alarmCode = getRAM st (alarmCodeAddressOffset + currentDayOfWeek) 0;
                alarmHour = alarmHour_of alarmCode;
                alarmMinute = alarmMinute_of alarmCode;
                (st, alarmTriggered) =
                  (if alarmTriggeredTime st = 0 \<and> hour st \<ge> alarmHour \<and> minute st \<ge> alarmMinute
                   then (st\<lparr>alarmTriggeredTime := micros\<rparr>, True)
                   else (st, False));
                st = (if hour st = 0 \<and> minute st = 0 then st\<lparr>alarmTriggeredTime := 0\<rparr> else st)
            in (st, alarmTriggered))
         else (st, False))"

section \<open>Date calculation\<close>

definition is_leap_year :: "u16 \<Rightarrow> u8" where
  "is_leap_year y =
     (if (y mod 4 = 0 \<and> y mod 100 \<noteq> 0) \<or> y mod 400 = 0 then 1 else 0)"

definition calculate_ydn :: "DS1307new \<Rightarrow> DS1307new" where
  "calculate_ydn st =
     (let tmp1 = (0 :: u8);
          tmp1 = (if month st \<ge> 3 then tmp1 + 1 else tmp1);
          tmp2 = (ucast (month st) :: u16);
          tmp2 = tmp2 + 2;
          tmp2 = tmp2 * 611;
          tmp2 = tmp2 div 20;
          tmp2 = tmp2 + ucast (day st);
          tmp2 = tmp2 - 91;
          tmp1 = push_bit 1 tmp1;
          tmp2 = tmp2 - ucast tmp1;
          tmp2 = (if tmp1 \<noteq> 0 then tmp2 + ucast (is_leap_year (year st)) else tmp2)
      in st\<lparr>ydn := tmp2\<rparr>)"

text \<open>The loop of \<open>calculate_cdn\<close>: it counts \<open>y\<close> down to 2000.\<close>

function calculate_cdn_loop :: "u16 \<Rightarrow> u16 \<Rightarrow> u16" where
  "calculate_cdn_loop y c =
     (if y > 2000
      then (let y = y - 1;
                c = c + 365;
                c = c + ucast (is_leap_year y)
            in calculate_cdn_loop y c)
      else c)"
  by pat_completeness auto
termination
  apply (relation "measure (\<lambda>(y, c). unat y)")
   apply simp
  apply simp
  apply unat_arith
  done

declare calculate_cdn_loop.simps [simp del]

definition calculate_cdn :: "DS1307new \<Rightarrow> DS1307new" where
  "calculate_cdn st =
     (let y = year st;
          c = ydn st;
          c = c - 1
      in st\<lparr>cdn := calculate_cdn_loop y c\<rparr>)"

definition calculate_dow :: "DS1307new \<Rightarrow> DS1307new" where
  "calculate_dow st =
     (let tmp = cdn st;
          tmp = tmp + 6;
          tmp = tmp mod 7
      in st\<lparr>dow := ucast tmp\<rparr>)"

definition calculate_time2000 :: "DS1307new \<Rightarrow> DS1307new" where
  "calculate_time2000 st =
     (let t = (ucast (cdn st) :: u32);
          t = t * 24;
          t = t + ucast (hour st);
          t = t * 60;
          t = t + ucast (minute st);
          t = t * 60;
          t = t + ucast (second st)
      in st\<lparr>time2000 := t\<rparr>)"

text \<open>\<open>_corrected_year_day_number\<close> of the source, without the leading underscore.\<close>

definition corrected_year_day_number :: "DS1307new \<Rightarrow> u16" where
  "corrected_year_day_number st =
     (let corrected_ydn = ydn st;
          a = is_leap_year (year st);
          corrected_ydn =
            (if corrected_ydn > ucast (59 + a)
             then (let corrected_ydn = corrected_ydn + 2 in corrected_ydn - ucast a)
             else corrected_ydn)
      in corrected_ydn + 91)"

definition calculate_month_by_year_and_ydn :: "DS1307new \<Rightarrow> DS1307new" where
  "calculate_month_by_year_and_ydn st =
     (let c_ydn = corrected_year_day_number st;
          c_ydn = c_ydn * 20;
          c_ydn = c_ydn div 611;
          a = (ucast c_ydn :: u8);
          a = a - 2
      in st\<lparr>month := a\<rparr>)"

definition calculate_day_by_month_year_and_ydn :: "DS1307new \<Rightarrow> DS1307new" where
  "calculate_day_by_month_year_and_ydn st =
     (let m = month st;
          m = m + 2;
          c_ydn = corrected_year_day_number st;
          tmp = (611 :: u16);
          tmp = tmp * ucast m;
          tmp = tmp div 20;
          c_ydn = c_ydn - tmp
      in st\<lparr>day := ucast c_ydn\<rparr>)"

text \<open>
  The year search of \<open>fillByCDN\<close> is a \<open>for(;;)\<close> that leaves by \<open>break\<close>. Nothing
  in its form bounds it, so it is a partial function: \<open>None\<close> stands for a loop that
  never ends. It returns the remaining day count and the year.
\<close>

partial_function (option) fillByCDN_loop :: "u16 \<Rightarrow> u16 \<Rightarrow> (u16 \<times> u16) option" where
  "fillByCDN_loop c y =
     (let days_per_year = (365 :: u16);
          days_per_year = days_per_year + ucast (is_leap_year y)
      in if c \<ge> days_per_year
         then fillByCDN_loop (c - days_per_year) (y + 1)
         else Some (c, y))"

declare fillByCDN_loop.simps [code]

definition fillByCDN :: "DS1307new \<Rightarrow> u16 \<Rightarrow> DS1307new option" where
  "fillByCDN st c =
     (let st = st\<lparr>cdn := c\<rparr>
      in case fillByCDN_loop c 2000 of
           None \<Rightarrow> None
         | Some (c, y) \<Rightarrow>
             (let c = c + 1;
                  st = st\<lparr>year := y\<rparr>;
                  st = st\<lparr>ydn := c\<rparr>;
                  st = calculate_dow st;
                  st = calculate_month_by_year_and_ydn st;
                  st = calculate_day_by_month_year_and_ydn st
              in Some (calculate_time2000 st)))"

definition fillByTime2000 :: "DS1307new \<Rightarrow> u32 \<Rightarrow> DS1307new option" where
  "fillByTime2000 st t =
     (let st = st\<lparr>time2000 := t\<rparr>;
          st = st\<lparr>second := ucast (t mod 60)\<rparr>;
          t = t div 60;
          st = st\<lparr>minute := ucast (t mod 60)\<rparr>;
          t = t div 60;
          st = st\<lparr>hour := ucast (t mod 24)\<rparr>;
          t = t div 24
      in fillByCDN st (ucast t))"

definition fillByHMS :: "DS1307new \<Rightarrow> u8 \<Rightarrow> u8 \<Rightarrow> u8 \<Rightarrow> DS1307new" where
  "fillByHMS st h m s =
     (let st = st\<lparr>hour := h\<rparr>;
          st = st\<lparr>minute := m\<rparr>;
          st = st\<lparr>second := s\<rparr>
      in calculate_time2000 st)"

definition fillByYMD :: "DS1307new \<Rightarrow> u16 \<Rightarrow> u8 \<Rightarrow> u8 \<Rightarrow> DS1307new" where
  "fillByYMD st y m d =
     (let st = st\<lparr>year := y\<rparr>;
          st = st\<lparr>month := m\<rparr>;
          st = st\<lparr>day := d\<rparr>;
          st = calculate_ydn st;
          st = calculate_cdn st;
          st = calculate_dow st
      in calculate_time2000 st)"

text \<open>
  \<open>isCETSummerTime\<close> runs on the object \<open>RTC\<close> itself: \<open>RTC.cdn - RTC.dow\<close> reads
  the fields that the two calls before it have just written.
\<close>

definition isCETSummerTime :: "DS1307new \<Rightarrow> (DS1307new \<times> u8) option" where
  "isCETSummerTime st =
     (let current_time = time2000 st;
          st = fillByYMD st (year st) 3 30;
          st = fillByHMS st 2 0 0
      in case fillByCDN st (cdn st - ucast (dow st)) of
           None \<Rightarrow> None
         | Some st \<Rightarrow>
             (let summer_start = time2000 st;
                  st = fillByYMD st (year st) 10 31;
                  st = fillByHMS st 3 0 0
              in case fillByCDN st (cdn st - ucast (dow st)) of
                   None \<Rightarrow> None
                 | Some st \<Rightarrow>
                     (let winter_start = time2000 st
                      in case fillByTime2000 st current_time of
                           None \<Rightarrow> None
                         | Some st \<Rightarrow>
                             Some (st, if summer_start \<le> current_time \<and> current_time < winter_start
                                       then 1 else 0))))"

section \<open>Vocabulary of the properties\<close>

text \<open>
  The object \<open>RTC\<close> as static initialisation and the constructor leave it (every
  field zero, \<open>alarmTriggeredTime = 0\<close>), attached to a chip that acknowledges and
  whose registers all read 0. The concrete examples below start from it.
\<close>

definition RTC_initial :: DS1307new where
  "RTC_initial =
     \<lparr>second = 0, minute = 0, hour = 0, dow = 0, day = 0, month = 0, year = 0, ctrl = 0,
      ydn = 0, cdn = 0, time2000 = 0, alarmTriggeredTime = 0,
      chip_ack = True, chip_reg = (\<lambda>a. 0)\<rparr>"

text \<open>
  The length of a month of the civil calendar, with the source's \<open>is_leap_year\<close> for
  February. The source has no such function; it says which days are valid.
\<close>

definition days_in_month :: "u16 \<Rightarrow> u8 \<Rightarrow> u8" where
  "days_in_month y m =
     (if m = 2 then 28 + is_leap_year y
      else if m = 4 \<or> m = 6 \<or> m = 9 \<or> m = 11 then 30
      else 31)"

text \<open>
  The number of days from 2000-01-01 to the first day of the year \<open>2000 + k\<close>, with
  the source's \<open>is_leap_year\<close>: what the loops of \<open>calculate_cdn\<close> and \<open>fillByCDN\<close>
  add up and take off year by year.
\<close>

primrec days_before :: "nat \<Rightarrow> nat" where
  "days_before 0 = 0"
| "days_before (Suc k) = days_before k + 365 + unat (is_leap_year (2000 + of_nat k))"

text \<open>
  A mutually consistent date and time: the civil fields are in range (a year from
  2000 to 2135, a day that the month has), and recomputing the derived fields \<open>ydn\<close>,
  \<open>cdn\<close>, \<open>dow\<close> and \<open>time2000\<close> from the civil fields, as \<open>fillByYMD\<close> and
  \<open>fillByHMS\<close> do, changes nothing.
\<close>

definition consistent :: "DS1307new \<Rightarrow> bool" where
  "consistent st \<longleftrightarrow>
     2000 \<le> year st \<and> year st \<le> 2135 \<and> 1 \<le> month st \<and> month st \<le> 12 \<and>
     1 \<le> day st \<and> day st \<le> days_in_month (year st) (month st) \<and>
     hour st < 24 \<and> minute st < 60 \<and> second st < 60 \<and>
     fillByHMS (fillByYMD st (year st) (month st) (day st)) (hour st) (minute st) (second st) = st"

text \<open>The object on Wednesday 2001-07-04 at 12:30:15, day 550 since 2000-01-01.\<close>

definition RTC_2001_07_04 :: DS1307new where
  "RTC_2001_07_04 =
     \<lparr>second = 15, minute = 30, hour = 12, dow = 3, day = 4, month = 7, year = 2001, ctrl = 0,
      ydn = 185, cdn = 550, time2000 = 47565015, alarmTriggeredTime = 0,
      chip_ack = True, chip_reg = (\<lambda>a. 0)\<rparr>"

section \<open>Words as natural numbers\<close>

lemma unat_add_mod: "unat (a + b) = (unat a + unat b) mod 2 ^ LENGTH('a)"
  for a b :: "'a::len word"
  by (simp add: unat_word_ariths unat_of_nat)

lemma unat_mult_mod: "unat (a * b) = (unat a * unat b) mod 2 ^ LENGTH('a)"
  for a b :: "'a::len word"
  by (simp add: unat_word_ariths unat_of_nat)

lemma unat_ucast_mod: "unat (ucast w :: 'b::len word) = unat w mod 2 ^ LENGTH('b)"
  for w :: "'a::len word"
  by (simp add: unsigned_ucast_eq take_bit_eq_mod)

lemmas w2n = word_unat_eq_iff unat_add_mod unat_mult_mod unat_sub_if' unat_div unat_mod
  unat_ucast_mod word_le_nat_alt word_less_nat_alt

section \<open>The alarm store\<close>

lemmas alarm_defs = setAlarm_def setAlarm2_def clearAlarm_def isAlarmTime_def getRAM_def
  setRAM_def alarmBitsAddress_def alarmCodeAddressOffset_def alarmCode_of_def
  alarmHour_of_def alarmMinute_of_def

lemma hour_cases:
  fixes h :: u8
  assumes "4 \<le> h" "h \<le> 11"
  shows "h = 4 \<or> h = 5 \<or> h = 6 \<or> h = 7 \<or> h = 8 \<or> h = 9 \<or> h = 10 \<or> h = 11"
  using assms by unat_arith

lemma setAlarm_guard_always: "4 \<le> h \<or> h < 21" for h :: u8
  by unat_arith

lemma setAlarm_returns_true: "snd (setAlarm st d h m)"
  using setAlarm_guard_always[of h] by (auto simp: setAlarm_def)

lemma setAlarm_stores:
  assumes "chip_ack st"
  shows "getRAM (fst (setAlarm st d h m)) (alarmCodeAddressOffset + d) x = alarmCode_of h m"
  using assms setAlarm_guard_always[of h]
  by (auto simp: setAlarm_def setAlarm2_def getRAM_def setRAM_def Let_def)

lemma alarmCode_of_le_95:
  fixes h m :: u8
  assumes "4 \<le> h" "h < 12" "m \<le> 59"
  shows "alarmCode_of h m \<le> 95"
proof -
  from assms(3) have "unat m div 5 \<le> 11"
    by (simp add: word_le_nat_alt)
  moreover from assms(1,2) have "h \<le> 11"
    by unat_arith
  note hour_cases[OF assms(1) this]
  ultimately show ?thesis
    by (elim disjE) (simp_all add: alarmCode_of_def w2n)
qed

text \<open>
  C3. The claim: for an hour below 4 the three-argument \<open>setAlarm\<close> returns false and
  writes nothing. The guard \<open>alarmHour >= 4 || alarmHour < 21\<close> holds for every hour,
  so the code does neither: \<open>setAlarm(3, 2, 0)\<close> on the initial object returns true,
  sets bit 3 of the alarm-bits byte and stores the wrapped code 232 for Wednesday.
\<close>

theorem setAlarm_hour_2_writes:
  "snd (setAlarm RTC_initial 3 2 0) = True \<and>
   getRAM RTC_initial alarmBitsAddress 0 = 0 \<and>
   getRAM (fst (setAlarm RTC_initial 3 2 0)) alarmBitsAddress 0 = 8 \<and>
   getRAM RTC_initial (alarmCodeAddressOffset + 3) 0 = 0 \<and>
   getRAM (fst (setAlarm RTC_initial 3 2 0)) (alarmCodeAddressOffset + 3) 0 = 232"
  by (simp add: alarm_defs RTC_initial_def)

text \<open>
  C4. The claim: with the bit of today set and the latch at 0, \<open>isAlarmTime\<close> returns
  true whenever the decoded alarm time is at or before the current time, hour first
  and minute second. The code compares hour and minute separately
  (\<open>hour >= alarmHour && minute >= alarmMinute\<close>): with the alarm of Wednesday at
  06:30 (code 30) and the clock at 07:00 on a Wednesday it returns false and leaves
  the state as it was.
\<close>

theorem isAlarmTime_false_at_0700_for_0630:
  "getRAM (fst (setAlarm (RTC_initial\<lparr>dow := 3, hour := 7, minute := 0\<rparr>) 3 6 30))
     alarmBitsAddress 0 = 8 \<and>
   getRAM (fst (setAlarm (RTC_initial\<lparr>dow := 3, hour := 7, minute := 0\<rparr>) 3 6 30))
     (alarmCodeAddressOffset + 3) 0 = 30 \<and>
   alarmHour_of 30 = 6 \<and> alarmMinute_of 30 = 30 \<and>
   isAlarmTime (fst (setAlarm (RTC_initial\<lparr>dow := 3, hour := 7, minute := 0\<rparr>) 3 6 30)) 1000 =
     (fst (setAlarm (RTC_initial\<lparr>dow := 3, hour := 7, minute := 0\<rparr>) 3 6 30), False)"
  by (simp add: alarm_defs RTC_initial_def)

text \<open>
  The other half of the claim holds: while the decoded alarm time is later than the
  current time, hour first and minute second, \<open>isAlarmTime\<close> returns false.
\<close>

lemma isAlarmTime_before_alarm:
  assumes "hour st < alarmHour_of (getRAM st (alarmCodeAddressOffset + dow st) 0) \<or>
    (hour st = alarmHour_of (getRAM st (alarmCodeAddressOffset + dow st) 0) \<and>
     minute st < alarmMinute_of (getRAM st (alarmCodeAddressOffset + dow st) 0))"
  shows "\<not> snd (isAlarmTime st micros)"
  using assms by (auto simp: isAlarmTime_def Let_def split: prod.splits if_splits)

text \<open>
  C5. The claim: \<open>clearAlarm(weekday)\<close> leaves bit \<open>weekday\<close> of the alarm-bits byte
  cleared and the other bits as they were, whether or not the bit was set before.
  The code subtracts the mask (\<open>value = value - mask\<close>): when the bit is not set the
  subtraction borrows. On the initial object, whose alarm-bits byte is 0,
  \<open>clearAlarm(3)\<close> leaves the byte at 0xF8, with bit 3 and bits 4 to 7 set. The code
  byte is 0xFF as claimed.
\<close>

theorem clearAlarm_borrows_when_bit_unset:
  "getRAM RTC_initial alarmBitsAddress 0 = 0 \<and>
   getRAM (clearAlarm RTC_initial 3) alarmBitsAddress 0 = 0xF8 \<and>
   getRAM (clearAlarm RTC_initial 3) (alarmCodeAddressOffset + 3) 0 = 0xFF"
  by (simp add: alarm_defs RTC_initial_def)

text \<open>
  When the bit is set, the subtraction does clear it and nothing else, on an
  acknowledging chip and for a weekday from 0 to 6.
\<close>

lemma clearAlarm_when_bit_set:
  assumes "chip_ack st" "dayOfWeek \<le> 6" "bit (getRAM st alarmBitsAddress 0) (unat dayOfWeek)"
  shows "getRAM (clearAlarm st dayOfWeek) alarmBitsAddress 0 =
      unset_bit (unat dayOfWeek) (getRAM st alarmBitsAddress 0) \<and>
    getRAM (clearAlarm st dayOfWeek) (alarmCodeAddressOffset + dayOfWeek) 0 = 0xFF"
proof -
  from assms(2) have d: "dayOfWeek = 0 \<or> dayOfWeek = 1 \<or> dayOfWeek = 2 \<or> dayOfWeek = 3 \<or>
    dayOfWeek = 4 \<or> dayOfWeek = 5 \<or> dayOfWeek = 6"
    by unat_arith
  then have a: "(alarmCodeAddressOffset + dayOfWeek AND 63) + 8 \<noteq> (alarmBitsAddress AND 63) + 8"
    by (elim disjE) (simp_all add: alarmCodeAddressOffset_def alarmBitsAddress_def)
  have sub: "v - 2 ^ n = unset_bit n v" if "bit v n" for v :: u8 and n
    using that by (simp add: unset_bit_eq)
  from assms(1,3) a show ?thesis
    by (simp add: clearAlarm_def getRAM_def setRAM_def Let_def sub)
qed

text \<open>
  C6. For every hour from 4 to 11 and every minute in 0, 5, ..., 55, decoding the
  alarm code that \<open>setAlarm\<close> computes gives the hour and the minute back.
\<close>

theorem alarm_code_roundtrip:
  fixes h m :: u8
  assumes "4 \<le> h" "h \<le> 11" "m \<in> {0, 5, 10, 15, 20, 25, 30, 35, 40, 45, 50, 55}"
  shows "alarmHour_of (alarmCode_of h m) = h \<and> alarmMinute_of (alarmCode_of h m) = m"
  using hour_cases[OF assms(1,2)] assms(3)
  by (elim disjE insertE emptyE;
      simp add: alarmHour_of_def alarmCode_of_def alarmMinute_of_def)

theorem alarm_code_roundtrip_witness:
  "(4::u8) \<le> 6 \<and> (6::u8) \<le> 11 \<and>
   (30::u8) \<in> {0, 5, 10, 15, 20, 25, 30, 35, 40, 45, 50, 55} \<and>
   alarmCode_of 6 30 = 30 \<and>
   alarmHour_of (alarmCode_of 6 30) = 6 \<and> alarmMinute_of (alarmCode_of 6 30) = 30"
  using alarm_code_roundtrip[of 6 30] by (simp add: alarmCode_of_def)

text \<open>
  C8. The claim: every call of \<open>isAlarmTime\<close> at 00:00 resets the latch
  \<open>alarmTriggeredTime\<close>, whatever the alarm bits are, and no call at another time
  does. The source's comment on the reset says the same: "switch of alarm trigger
  time at the start of a new day". The reset stands inside the branch taken when the
  bit of today is set, so the code misses the first half: at 00:00 with no alarm bit
  set a latch of 1000 stays 1000.
\<close>

theorem isAlarmTime_midnight_without_bit_keeps_latch:
  "hour (RTC_initial\<lparr>alarmTriggeredTime := 1000\<rparr>) = 0 \<and>
   minute (RTC_initial\<lparr>alarmTriggeredTime := 1000\<rparr>) = 0 \<and>
   alarmTriggeredTime (fst (isAlarmTime (RTC_initial\<lparr>alarmTriggeredTime := 1000\<rparr>) 2000)) = 1000"
  by (simp add: alarm_defs RTC_initial_def)

text \<open>
  What follows from it: the alarm of Sunday 06:30 fires; Monday has no alarm, and the
  call at Monday 00:00 leaves the latch set; an alarm for Monday 11:00 that is set at
  10:00 is not reported at 11:00.
\<close>

lemma isAlarmTime_alarm_set_after_midnight_not_reported:
  "(let sunday_0630 = isAlarmTime (fst (setAlarm (RTC_initial\<lparr>dow := 0, hour := 6, minute := 30\<rparr>) 0 6 30)) 1000;
        monday_0000 = isAlarmTime ((fst sunday_0630)\<lparr>dow := 1, hour := 0, minute := 0\<rparr>) 2000;
        monday_1000 = setAlarm ((fst monday_0000)\<lparr>hour := 10\<rparr>) 1 11 0;
        monday_1100 = isAlarmTime ((fst monday_1000)\<lparr>hour := 11\<rparr>) 3000
    in snd sunday_0630 \<and> alarmTriggeredTime (fst monday_0000) = 1000 \<and>
       alarmHour_of (alarmCode_of 11 0) = 11 \<and> alarmMinute_of (alarmCode_of 11 0) = 0 \<and>
       \<not> snd monday_1100)"
  by (simp add: alarm_defs RTC_initial_def Let_def)

text \<open>
  The rest of the claim is what the code does: a call at 00:00 on a day whose alarm
  bit is set leaves the latch at 0, and a call at any other time leaves a latch that
  is set (not 0) as it was.
\<close>

lemma isAlarmTime_latch_reset:
  "(0 < getRAM st alarmBitsAddress 0 AND push_bit (unat (dow st)) 1 \<and>
    hour st = 0 \<and> minute st = 0
      \<longrightarrow> alarmTriggeredTime (fst (isAlarmTime st micros)) = 0) \<and>
   (alarmTriggeredTime st \<noteq> 0 \<and> \<not> (hour st = 0 \<and> minute st = 0)
      \<longrightarrow> alarmTriggeredTime (fst (isAlarmTime st micros)) = alarmTriggeredTime st)"
  by (auto simp: isAlarmTime_def Let_def split: prod.splits if_splits)

text \<open>
  C9. The claim: for an hour from 4 to 11 and a minute up to 59 the code that the
  three-argument \<open>setAlarm\<close> stores lies in 0 to 71. For 11:55 it stores 95.
\<close>

theorem setAlarm_1155_stores_95:
  "\<not> getRAM (fst (setAlarm RTC_initial 3 11 55)) (alarmCodeAddressOffset + 3) 0 \<le> 71"
  by (simp add: alarm_defs RTC_initial_def)

text \<open>
  C9, amended. For every hour from 4 to 11 and every minute up to 59 the
  three-argument \<open>setAlarm\<close> returns true and the code it computes and stores on an
  acknowledging chip lies in 0 to 95.
\<close>

theorem setAlarm_code_range:
  fixes h m d :: u8
  assumes "chip_ack st" "4 \<le> h" "h < 12" "m \<le> 59"
  shows "snd (setAlarm st d h m) \<and>
    getRAM (fst (setAlarm st d h m)) (alarmCodeAddressOffset + d) 0 = alarmCode_of h m \<and>
    alarmCode_of h m \<le> 95"
  using assms by (simp add: setAlarm_stores alarmCode_of_le_95 setAlarm_returns_true)

theorem setAlarm_code_range_witness:
  "chip_ack RTC_initial \<and> (4::u8) \<le> 11 \<and> (11::u8) < 12 \<and> (55::u8) \<le> 59 \<and>
   snd (setAlarm RTC_initial 3 11 55) \<and>
   getRAM (fst (setAlarm RTC_initial 3 11 55)) (alarmCodeAddressOffset + 3) 0 = 95 \<and>
   alarmCode_of 11 55 \<le> 95"
  using setAlarm_code_range[of RTC_initial 11 55 3]
  by (simp add: RTC_initial_def alarmCode_of_def)

section \<open>The calendar engine\<close>

subsection \<open>The Robertson conversion\<close>

lemma leap_cases: "is_leap_year y = 0 \<or> is_leap_year y = 1"
  by (simp add: is_leap_year_def)

lemma div611: "611 * k \<le> a \<Longrightarrow> a < 611 * k + 611 \<Longrightarrow> a div 611 = (k::nat)"
  by (rule div_nat_eqI) simp_all

lemmas div611s = div611[of 3, simplified] div611[of 4, simplified] div611[of 5, simplified]
  div611[of 6, simplified] div611[of 7, simplified] div611[of 8, simplified]
  div611[of 9, simplified] div611[of 10, simplified] div611[of 11, simplified]
  div611[of 12, simplified] div611[of 13, simplified] div611[of 14, simplified]

lemma nat_month_cases:
  fixes m :: nat
  assumes "1 \<le> m" "m \<le> 12"
  shows "m = 1 \<or> m = 2 \<or> m = 3 \<or> m = 4 \<or> m = 5 \<or> m = 6 \<or> m = 7 \<or> m = 8 \<or> m = 9 \<or> m = 10 \<or> m = 11 \<or> m = 12"
  using assms by arith

lemma unat_corrected:
  assumes "unat (ydn st) \<le> 366"
  shows "unat (corrected_year_day_number st) =
    (if 59 + unat (is_leap_year (year st)) < unat (ydn st)
     then unat (ydn st) + 2 - unat (is_leap_year (year st)) else unat (ydn st)) + 91"
  using assms leap_cases[of "year st"]
  by (auto simp: corrected_year_day_number_def Let_def w2n)

lemma unat_month:
  assumes "92 \<le> unat (corrected_year_day_number st)" "unat (corrected_year_day_number st) \<le> 458"
  shows "unat (month (calculate_month_by_year_and_ydn st)) =
    unat (corrected_year_day_number st) * 20 div 611 - 2"
proof -
  let ?c = "unat (corrected_year_day_number st)"
  from assms have "3 \<le> ?c * 20 div 611" "?c * 20 div 611 \<le> 14"
    by arith+
  with assms show ?thesis
    by (simp add: calculate_month_by_year_and_ydn_def Let_def w2n)
qed

lemma robertson_floor_mono: "m \<le> k \<Longrightarrow> (m + 2) * 611 div 20 \<le> (k + 2) * 611 div (20::nat)"
  by (rule div_le_mono) simp

lemma unat_day:
  assumes "unat (month st) \<le> 13"
    and "(unat (month st) + 2) * 611 div 20 \<le> unat (corrected_year_day_number st)"
    and "unat (corrected_year_day_number st) - (unat (month st) + 2) * 611 div 20 < 256"
  shows "unat (day (calculate_day_by_month_year_and_ydn st)) =
    unat (corrected_year_day_number st) - (unat (month st) + 2) * 611 div 20"
proof -
  from robertson_floor_mono[OF assms(1)] have "(unat (month st) + 2) * 611 div 20 \<le> 458"
    by simp
  with assms show ?thesis
    by (simp add: calculate_day_by_month_year_and_ydn_def Let_def w2n mult.commute)
qed


lemma unat_ydn:
  assumes "1 \<le> unat (month st)" "unat (month st) \<le> 12" "1 \<le> unat (day st)" "unat (day st) \<le> 31"
  shows "unat (ydn (calculate_ydn st)) =
    (unat (month st) + 2) * 611 div 20 + unat (day st) - 91 -
      (if 3 \<le> unat (month st) then 2 - unat (is_leap_year (year st)) else 0)"
proof -
  define K where "K = (unat (month st) + 2) * 611 div 20"
  define W :: u16 where "W = (ucast (month st) + 2) * 611 div 20"
  from robertson_floor_mono[OF assms(1)] robertson_floor_mono[OF assms(2)] have k: "91 \<le> K" "K \<le> 427"
    by (simp_all add: K_def)
  have k3: "152 \<le> K" if "3 \<le> unat (month st)"
    using robertson_floor_mono[OF that] by (simp add: K_def)
  from assms(2) have W: "unat W = K"
    by (simp add: W_def K_def w2n)
  have eq: "ydn (calculate_ydn st) =
    (if 3 \<le> unat (month st) then W + ucast (day st) - 91 - 2 + ucast (is_leap_year (year st))
     else W + ucast (day st) - 91)"
    by (simp add: calculate_ydn_def Let_def W_def word_le_nat_alt)
  show ?thesis
  proof (cases "3 \<le> unat (month st)")
    case True
    with k k3 assms(3,4) leap_cases[of "year st"] show ?thesis
      unfolding eq K_def[symmetric] by (auto simp: w2n W)
  next
    case False
    with k assms(3,4) show ?thesis
      unfolding eq K_def[symmetric] by (simp add: w2n W)
  qed
qed

lemma robertson_nat_forward:
  fixes m d l :: nat
  assumes "1 \<le> m" "m \<le> 12" "1 \<le> d"
    and "d \<le> (if m = 2 then 28 + l else if m = 4 \<or> m = 6 \<or> m = 9 \<or> m = 11 then 30 else 31)"
    and "l \<le> 1"
    and "n = (m + 2) * 611 div 20 + d - 91 - (if 3 \<le> m then 2 - l else 0)"
    and "c = (if 59 + l < n then n + 2 - l else n) + 91"
  shows "1 \<le> n \<and> n \<le> 365 + l \<and> c = (m + 2) * 611 div 20 + d \<and> c * 20 div 611 = m + 2"
  using nat_month_cases[OF assms(1,2)] assms(3-)
  by (elim disjE) (simp_all add: div611s)

lemma robertson_nat_corrected:
  fixes c :: nat
  assumes "92 \<le> c" "c \<le> 458"
    and m: "m = c * 20 div 611 - 2"
    and d: "d = c - (m + 2) * 611 div 20"
  shows "1 \<le> m \<and> m \<le> 12 \<and> 1 \<le> d \<and>
    d \<le> (if m = 2 \<or> m = 4 \<or> m = 6 \<or> m = 9 \<or> m = 11 then 30 else 31) \<and>
    3 \<le> c * 20 div 611 \<and> (m + 2) * 611 div 20 + d = c \<and> (3 \<le> m) = (152 < c) \<and>
    (m = 2 \<longrightarrow> d + 122 = c)"
proof -
  from assms(1,2)
  have "c \<le> 122 \<or> (122 < c \<and> c \<le> 152) \<or> (152 < c \<and> c \<le> 183) \<or> (183 < c \<and> c \<le> 213) \<or>
    (213 < c \<and> c \<le> 244) \<or> (244 < c \<and> c \<le> 274) \<or> (274 < c \<and> c \<le> 305) \<or> (305 < c \<and> c \<le> 336) \<or>
    (336 < c \<and> c \<le> 366) \<or> (366 < c \<and> c \<le> 397) \<or> (397 < c \<and> c \<le> 427) \<or> 427 < c"
    by linarith
  then show ?thesis
  proof (elim disjE)
    assume *: "c \<le> 122"
    with \<open>92 \<le> c\<close> have "c * 20 div 611 = 3" by (simp add: div611s)
    with * assms show ?thesis by auto
  next
    assume *: "122 < c \<and> c \<le> 152"
    then have "c * 20 div 611 = 4" by (simp add: div611s)
    with * assms show ?thesis by auto
  next
    assume *: "152 < c \<and> c \<le> 183"
    then have "c * 20 div 611 = 5" by (simp add: div611s)
    with * assms show ?thesis by auto
  next
    assume *: "183 < c \<and> c \<le> 213"
    then have "c * 20 div 611 = 6" by (simp add: div611s)
    with * assms show ?thesis by auto
  next
    assume *: "213 < c \<and> c \<le> 244"
    then have "c * 20 div 611 = 7" by (simp add: div611s)
    with * assms show ?thesis by auto
  next
    assume *: "244 < c \<and> c \<le> 274"
    then have "c * 20 div 611 = 8" by (simp add: div611s)
    with * assms show ?thesis by auto
  next
    assume *: "274 < c \<and> c \<le> 305"
    then have "c * 20 div 611 = 9" by (simp add: div611s)
    with * assms show ?thesis by auto
  next
    assume *: "305 < c \<and> c \<le> 336"
    then have "c * 20 div 611 = 10" by (simp add: div611s)
    with * assms show ?thesis by auto
  next
    assume *: "336 < c \<and> c \<le> 366"
    then have "c * 20 div 611 = 11" by (simp add: div611s)
    with * assms show ?thesis by auto
  next
    assume *: "366 < c \<and> c \<le> 397"
    then have "c * 20 div 611 = 12" by (simp add: div611s)
    with * assms show ?thesis by auto
  next
    assume *: "397 < c \<and> c \<le> 427"
    then have "c * 20 div 611 = 13" by (simp add: div611s)
    with * assms show ?thesis by auto
  next
    assume *: "427 < c"
    with \<open>c \<le> 458\<close> have "c * 20 div 611 = 14" by (simp add: div611s)
    with * assms show ?thesis by auto
  qed
qed

lemma robertson_nat_inverse:
  fixes n l :: nat
  assumes "1 \<le> n" "n \<le> 365 + l" "l \<le> 1"
    and c: "c = (if 59 + l < n then n + 2 - l else n) + 91"
    and m: "m = c * 20 div 611 - 2"
    and d: "d = c - (m + 2) * 611 div 20"
  shows "1 \<le> m \<and> m \<le> 12 \<and> 1 \<le> d \<and>
    d \<le> (if m = 2 then 28 + l else if m = 4 \<or> m = 6 \<or> m = 9 \<or> m = 11 then 30 else 31) \<and>
    3 \<le> c * 20 div 611 \<and> (m + 2) * 611 div 20 \<le> c \<and>
    (m + 2) * 611 div 20 + d - 91 - (if 3 \<le> m then 2 - l else 0) = n"
proof (cases "59 + l < n")
  case True
  with assms(1-3) c have "92 \<le> c" "c \<le> 458" "152 < c" "c = n + 93 - l"
    by simp_all
  with robertson_nat_corrected[OF this(1,2) m d] assms(3) show ?thesis
    by auto
next
  case False
  with assms(1-3) c have "92 \<le> c" "c \<le> 458" "\<not> 152 < c" "c = n + 91"
    by simp_all
  with robertson_nat_corrected[OF this(1,2) m d] assms(3) False show ?thesis
    by auto
qed


lemma corrected_frame [simp]:
  "corrected_year_day_number (s\<lparr>month := x\<rparr>) = corrected_year_day_number s"
  "corrected_year_day_number (s\<lparr>day := z\<rparr>) = corrected_year_day_number s"
  by (simp_all add: corrected_year_day_number_def)

lemma calculate_month_frame [simp]:
  "corrected_year_day_number (calculate_month_by_year_and_ydn s) = corrected_year_day_number s"
  "year (calculate_month_by_year_and_ydn s) = year s"
  "ydn (calculate_month_by_year_and_ydn s) = ydn s"
  by (simp_all add: calculate_month_by_year_and_ydn_def Let_def)

lemma calculate_day_frame [simp]:
  "month (calculate_day_by_month_year_and_ydn s) = month s"
  "year (calculate_day_by_month_year_and_ydn s) = year s"
  "ydn (calculate_day_by_month_year_and_ydn s) = ydn s"
  by (simp_all add: calculate_day_by_month_year_and_ydn_def Let_def)

lemma unat_leap_le_1: "unat (is_leap_year y) \<le> 1"
  using leap_cases[of y] by auto

lemma unat_days_in_month:
  "unat (days_in_month y m) =
     (if unat m = 2 then 28 + unat (is_leap_year y)
      else if unat m = 4 \<or> unat m = 6 \<or> unat m = 9 \<or> unat m = 11 then 30 else 31)"
  using leap_cases[of y] by (auto simp: days_in_month_def w2n)

lemma robertson_inverse_forward:
  assumes "1 \<le> m" "m \<le> 12" "1 \<le> d" "d \<le> days_in_month y m"
    and st1: "st1 = calculate_ydn (st\<lparr>year := y, month := m, day := d\<rparr>)"
    and sa: "ydn sa = ydn st1" "year sa = y"
    and st2: "st2 = calculate_day_by_month_year_and_ydn (calculate_month_by_year_and_ydn sa)"
  shows "month st2 = m \<and> day st2 = d \<and>
    1 \<le> unat (ydn st1) \<and> unat (ydn st1) \<le> 365 + unat (is_leap_year y)"
proof -
  define l where "l = unat (is_leap_year y)"
  define n where "n = unat (ydn st1)"
  define c where "c = (if 59 + l < n then n + 2 - l else n) + 91"
  define sb where "sb = calculate_month_by_year_and_ydn sa"
  have l: "l \<le> 1"
    using unat_leap_le_1[of y] by (simp add: l_def)
  from assms(1-3) have M: "1 \<le> unat m" "unat m \<le> 12" "1 \<le> unat d"
    by (simp_all add: word_le_nat_alt)
  from assms(4) have "unat d \<le> unat (days_in_month y m)"
    by (simp add: word_le_nat_alt)
  then have dim: "unat d \<le> (if unat m = 2 then 28 + l
      else if unat m = 4 \<or> unat m = 6 \<or> unat m = 9 \<or> unat m = 11 then 30 else 31)"
    unfolding unat_days_in_month l_def .
  with l have d31: "unat d \<le> 31"
    by (simp split: if_splits)
  from M d31 have n: "n = (unat m + 2) * 611 div 20 + unat d - 91 - (if 3 \<le> unat m then 2 - l else 0)"
    by (simp add: n_def st1 l_def unat_ydn)
  from robertson_nat_forward[OF M dim l n c_def]
  have r: "1 \<le> n" "n \<le> 365 + l" "c = (unat m + 2) * 611 div 20 + unat d" "c * 20 div 611 = unat m + 2"
    by blast+
  from r(2) l have "unat (ydn sa) \<le> 366"
    by (simp add: sa n_def)
  from unat_corrected[OF this] have ca: "unat (corrected_year_day_number sa) = c"
    by (simp add: sa c_def n_def l_def)
  from robertson_floor_mono[OF M(1)] robertson_floor_mono[OF M(2)] r(3) M(3) d31 have cb: "92 \<le> c" "c \<le> 458"
    by simp_all
  then have "unat (month sb) = unat m"
    unfolding sb_def using unat_month[of sa] by (simp add: ca r(4))
  then have mb: "month sb = m"
    by (simp add: word_unat_eq_iff)
  have "unat (day (calculate_day_by_month_year_and_ydn sb)) = unat d"
    using unat_day[of sb] M(2) d31 by (simp add: mb sb_def[symmetric]) (simp add: sb_def ca r(3))
  then have "day st2 = d" "month st2 = m"
    by (simp_all add: word_unat_eq_iff st2 sb_def[symmetric] mb)
  with r(1,2) show ?thesis
    by (simp add: n_def l_def)
qed


lemma robertson_forward_inverse:
  assumes "1 \<le> unat (ydn st)" "unat (ydn st) \<le> 365 + unat (is_leap_year (year st))"
    and st': "st' = calculate_day_by_month_year_and_ydn (calculate_month_by_year_and_ydn st)"
  shows "ydn (calculate_ydn st') = ydn st \<and> 1 \<le> month st' \<and> month st' \<le> 12 \<and>
    1 \<le> day st' \<and> day st' \<le> days_in_month (year st') (month st')"
proof -
  define l where "l = unat (is_leap_year (year st))"
  define n where "n = unat (ydn st)"
  define c where "c = (if 59 + l < n then n + 2 - l else n) + 91"
  define m where "m = c * 20 div 611 - 2"
  define d where "d = c - (m + 2) * 611 div 20"
  define sb where "sb = calculate_month_by_year_and_ydn st"
  have l: "l \<le> 1"
    using unat_leap_le_1[of "year st"] by (simp add: l_def)
  from assms(1,2) have n: "1 \<le> n" "n \<le> 365 + l"
    by (simp_all add: n_def l_def)
  from robertson_nat_inverse[OF n l c_def m_def d_def]
  have r: "1 \<le> m" "m \<le> 12" "1 \<le> d"
    "d \<le> (if m = 2 then 28 + l else if m = 4 \<or> m = 6 \<or> m = 9 \<or> m = 11 then 30 else 31)"
    "3 \<le> c * 20 div 611" "(m + 2) * 611 div 20 \<le> c"
    "(m + 2) * 611 div 20 + d - 91 - (if 3 \<le> m then 2 - l else 0) = n"
    by blast+
  from r(4) l have d31: "d \<le> 31"
    by (simp split: if_splits)
  from n l have "unat (ydn st) \<le> 366"
    by (simp add: n_def)
  from unat_corrected[OF this] have cs: "unat (corrected_year_day_number st) = c"
    by (simp add: c_def n_def l_def)
  from n l have cb: "92 \<le> c" "c \<le> 458"
    by (auto simp: c_def)
  then have mb: "unat (month sb) = m"
    unfolding sb_def using unat_month[of st] by (simp add: cs m_def)
  have db: "unat (day (calculate_day_by_month_year_and_ydn sb)) = d"
    using unat_day[of sb] r(2,6) d31 by (simp add: mb) (simp add: sb_def cs d_def)
  have st'': "st' = calculate_day_by_month_year_and_ydn sb"
    by (simp add: st' sb_def)
  have f: "unat (month st') = m" "unat (day st') = d" "year st' = year st"
    by (simp_all add: st'' mb db) (simp add: sb_def)
  from r(1-3) d31 have "unat (ydn (calculate_ydn st')) =
    (unat (month st') + 2) * 611 div 20 + unat (day st') - 91 -
      (if 3 \<le> unat (month st') then 2 - unat (is_leap_year (year st')) else 0)"
    by (intro unat_ydn) (simp_all add: f)
  also have "\<dots> = n"
    unfolding f l_def[symmetric] by (rule r(7))
  finally have "unat (ydn (calculate_ydn st')) = n" .
  then have "ydn (calculate_ydn st') = ydn st"
    by (simp add: word_unat_eq_iff n_def)
  moreover from r(1-3) have "1 \<le> month st'" "month st' \<le> 12" "1 \<le> day st'"
    by (simp_all add: word_le_nat_alt f)
  moreover from r(4) have "day st' \<le> days_in_month (year st') (month st')"
    unfolding word_le_nat_alt unat_days_in_month f l_def .
  ultimately show ?thesis
    by simp
qed


text \<open>
  C1. For every year from 2000 to 2135, every month from 1 to 12 and every day of
  that month (29 February in leap years included), \<open>calculate_ydn\<close> followed by
  \<open>calculate_month_by_year_and_ydn\<close> and \<open>calculate_day_by_month_year_and_ydn\<close>
  gives the month and the day back. The month and day fields are overwritten in
  between: the two are recovered from the year and the day number alone.
\<close>

theorem robertson_roundtrip:
  assumes "2000 \<le> y" "y \<le> 2135" "1 \<le> m" "m \<le> 12" "1 \<le> d" "d \<le> days_in_month y m"
  shows
    "month (calculate_day_by_month_year_and_ydn (calculate_month_by_year_and_ydn
       (calculate_ydn (st\<lparr>year := y, month := m, day := d\<rparr>)\<lparr>month := m', day := d'\<rparr>))) = m \<and>
     day (calculate_day_by_month_year_and_ydn (calculate_month_by_year_and_ydn
       (calculate_ydn (st\<lparr>year := y, month := m, day := d\<rparr>)\<lparr>month := m', day := d'\<rparr>))) = d"
proof -
  let ?st1 = "calculate_ydn (st\<lparr>year := y, month := m, day := d\<rparr>)"
  have "ydn (?st1\<lparr>month := m', day := d'\<rparr>) = ydn ?st1" "year (?st1\<lparr>month := m', day := d'\<rparr>) = y"
    by (simp_all add: calculate_ydn_def Let_def)
  from robertson_inverse_forward[OF assms(3-6) refl this refl] show ?thesis
    by simp
qed

theorem robertson_roundtrip_witness:
  "(2000::u16) \<le> 2024 \<and> (2024::u16) \<le> 2135 \<and> (1::u8) \<le> 2 \<and> (2::u8) \<le> 12 \<and> (1::u8) \<le> 29 \<and>
   29 \<le> days_in_month 2024 2 \<and>
   ydn (calculate_ydn (RTC_initial\<lparr>year := 2024, month := 2, day := 29\<rparr>)) = 60 \<and>
   month (calculate_day_by_month_year_and_ydn (calculate_month_by_year_and_ydn
     (calculate_ydn (RTC_initial\<lparr>year := 2024, month := 2, day := 29\<rparr>)\<lparr>month := 0, day := 0\<rparr>))) = 2 \<and>
   day (calculate_day_by_month_year_and_ydn (calculate_month_by_year_and_ydn
     (calculate_ydn (RTC_initial\<lparr>year := 2024, month := 2, day := 29\<rparr>)\<lparr>month := 0, day := 0\<rparr>))) = 29"
  using robertson_roundtrip[where y = 2024 and m = 2 and d = 29 and st = RTC_initial
      and m' = 0 and d' = 0]
  by (simp add: days_in_month_def is_leap_year_def calculate_ydn_def)

subsection \<open>The year search\<close>

lemma days_per_year_cases:
  "(365 :: u16) + ucast (is_leap_year y) = 365 \<or> (365 :: u16) + ucast (is_leap_year y) = 366"
  using leap_cases[of y] by auto

lemma fillByCDN_loop_step:
  assumes "(365 :: u16) + ucast (is_leap_year y) \<le> c"
  shows "unat (c - (365 + ucast (is_leap_year y))) + 365 \<le> unat c"
  using assms days_per_year_cases[of y] by (auto simp: w2n)

lemma fillByCDN_loop_returns: "\<exists>r. fillByCDN_loop c y = Some r"
proof (induction "unat c" arbitrary: c y rule: less_induct)
  case less
  show ?case
  proof (cases "(365 :: u16) + ucast (is_leap_year y) \<le> c")
    case True
    from fillByCDN_loop_step[OF True]
    have "unat (c - (365 + ucast (is_leap_year y))) < unat c" by simp
    from less[OF this] obtain r
      where "fillByCDN_loop (c - (365 + ucast (is_leap_year y))) (y + 1) = Some r" by blast
    with True show ?thesis
      by (subst fillByCDN_loop.simps) (simp add: Let_def)
  next
    case False
    then show ?thesis
      by (subst fillByCDN_loop.simps) (simp add: Let_def)
  qed
qed

lemma fillByCDN_returns: "\<exists>st'. fillByCDN st c = Some st'"
proof -
  obtain c' y where "fillByCDN_loop c 2000 = Some (c', y)"
    using fillByCDN_loop_returns[of c 2000] by auto
  then show ?thesis
    by (simp add: fillByCDN_def Let_def)
qed

text \<open>
  C10. For every 16-bit day count the year search of \<open>fillByCDN\<close> ends, from
  whatever year it starts, and so \<open>fillByCDN\<close> returns: a round of the loop that
  does not leave it takes at least 365 off the remaining days
  (\<open>fillByCDN_loop_step\<close>).
\<close>

theorem fillByCDN_total:
  "(\<exists>r. fillByCDN_loop c y = Some r) \<and> (\<exists>st'. fillByCDN st c = Some st')"
  using fillByCDN_loop_returns[of c y] fillByCDN_returns[of st c] by simp

lemma days_per_year_unat:
  "unat ((365 :: u16) + ucast (is_leap_year y)) = 365 + unat (is_leap_year y)"
  using leap_cases[of y] by auto

lemma fillByCDN_loop_stop:
  assumes "c < 365 + ucast (is_leap_year y)"
  shows "fillByCDN_loop c y = Some (c, y)"
proof -
  from assms have "\<not> 365 + ucast (is_leap_year y) \<le> c"
    by (simp add: not_le)
  then show ?thesis
    by (subst fillByCDN_loop.simps) (simp add: Let_def)
qed

lemma fillByCDN_loop_continue:
  assumes "365 + ucast (is_leap_year y) \<le> c"
  shows "fillByCDN_loop c y = fillByCDN_loop (c - (365 + ucast (is_leap_year y))) (y + 1)"
  using assms by (subst fillByCDN_loop.simps) (simp add: Let_def)

lemma calculate_cdn_loop_stop: "calculate_cdn_loop 2000 c = c"
  by (simp add: calculate_cdn_loop.simps)

lemma calculate_cdn_loop_continue:
  assumes "2000 \<le> y" "unat y < 65535"
  shows "calculate_cdn_loop (y + 1) c = calculate_cdn_loop y (c + 365 + ucast (is_leap_year y))"
proof -
  from assms have "2000 < y + 1"
    by (simp add: w2n)
  then show ?thesis
    by (subst calculate_cdn_loop.simps) (simp add: Let_def)
qed

lemma fillByCDN_loop_result:
  assumes "2000 \<le> y0" "unat y0 + unat c < 65536"
  shows "\<exists>c' y. fillByCDN_loop c y0 = Some (c', y) \<and> c' < 365 + ucast (is_leap_year y) \<and>
    calculate_cdn_loop y c' = calculate_cdn_loop y0 c"
  using assms
proof (induction "unat c" arbitrary: c y0 rule: less_induct)
  case less
  let ?dpy = "(365 :: u16) + ucast (is_leap_year y0)"
  show ?case
  proof (cases "?dpy \<le> c")
    case True
    from fillByCDN_loop_step[OF True] have dec: "unat (c - ?dpy) + 365 \<le> unat c" .
    with less.prems have y1: "2000 \<le> y0 + 1" "unat (y0 + 1) + unat (c - ?dpy) < 65536" "unat y0 < 65535"
      by (simp_all add: word_le_nat_alt unat_add_mod)
    from dec have "unat (c - ?dpy) < unat c"
      by simp
    from less.hyps[OF this y1(1,2)] obtain c' y
      where r: "fillByCDN_loop (c - ?dpy) (y0 + 1) = Some (c', y)" "c' < 365 + ucast (is_leap_year y)"
        "calculate_cdn_loop y c' = calculate_cdn_loop (y0 + 1) (c - ?dpy)"
      by blast
    from calculate_cdn_loop_continue[OF less.prems(1) y1(3), of "c - ?dpy"]
    have "calculate_cdn_loop (y0 + 1) (c - ?dpy) = calculate_cdn_loop y0 c"
      by simp
    with r show ?thesis
      by (simp add: fillByCDN_loop_continue[OF True])
  next
    case False
    then show ?thesis
      by (simp add: fillByCDN_loop_stop)
  qed
qed


subsection \<open>Seconds since 2000\<close>

lemma time_nat:
  "((T div 60 div 60 div 24 * 24 + T div 60 div 60 mod 24) * 60 + T div 60 mod 60) * 60 + T mod 60 = (T::nat)"
  by simp

lemma mod_small: "b \<le> n \<Longrightarrow> 0 < b \<Longrightarrow> x mod b mod n = x mod (b::nat)"
  by (rule mod_less) (rule less_le_trans[OF mod_less_divisor]; simp)

lemma unat_time_parts:
  fixes t :: u32
  shows "unat (ucast (t mod 60) :: u8) = unat t mod 60"
    and "unat (ucast (t div 60 mod 60) :: u8) = unat t div 60 mod 60"
    and "unat (ucast (t div 60 div 60 mod 24) :: u8) = unat t div 60 div 60 mod 24"
    and "unat (ucast (t div 60 div 60 div 24) :: u16) = unat t div 60 div 60 div 24"
proof -
  have "unat t < 4294967296"
    using unsigned_less[of t, where 'a = nat] by simp
  then have "unat t div 60 div 60 div 24 < 65536"
    by arith
  then show "unat (ucast (t div 60 div 60 div 24) :: u16) = unat t div 60 div 60 div 24"
    by (simp add: w2n)
qed (simp_all add: w2n mod_small)

lemma unat_calculate_time2000:
  assumes "unat (cdn st) \<le> 49710" "unat (hour st) < 24" "unat (minute st) < 60" "unat (second st) < 60"
    and "((unat (cdn st) * 24 + unat (hour st)) * 60 + unat (minute st)) * 60 + unat (second st) < 4294967296"
  shows "unat (time2000 (calculate_time2000 st)) =
    ((unat (cdn st) * 24 + unat (hour st)) * 60 + unat (minute st)) * 60 + unat (second st)"
  using assms by (simp add: calculate_time2000_def Let_def w2n)

lemma calculate_time2000_of_parts:
  fixes t :: u32
  assumes "cdn st = ucast (t div 60 div 60 div 24)" "hour st = ucast (t div 60 div 60 mod 24)"
    "minute st = ucast (t div 60 mod 60)" "second st = ucast (t mod 60)"
  shows "time2000 (calculate_time2000 st) = t"
proof -
  have t: "unat t < 4294967296"
    using unsigned_less[of t, where 'a = nat] by simp
  then have c: "unat t div 60 div 60 div 24 \<le> 49710"
    by arith
  have X: "((unat (cdn st) * 24 + unat (hour st)) * 60 + unat (minute st)) * 60 + unat (second st) =
    unat t"
    using time_nat[of "unat t"] by (simp add: assms unat_time_parts unat_div)
  have "unat (time2000 (calculate_time2000 st)) =
    ((unat (cdn st) * 24 + unat (hour st)) * 60 + unat (minute st)) * 60 + unat (second st)"
  proof (rule unat_calculate_time2000)
    show "unat (cdn st) \<le> 49710"
      unfolding assms unat_time_parts by (rule c)
    show "unat (hour st) < 24" "unat (minute st) < 60" "unat (second st) < 60"
      unfolding assms unat_time_parts by simp_all
    show "((unat (cdn st) * 24 + unat (hour st)) * 60 + unat (minute st)) * 60 + unat (second st)
      < 4294967296"
      unfolding X by (rule t)
  qed
  also note X
  finally show ?thesis
    by (simp add: word_unat_eq_iff)
qed


lemma calculate_ydn_cong:
  assumes "year s = year s'" "month s = month s'" "day s = day s'"
  shows "ydn (calculate_ydn s) = ydn (calculate_ydn s')"
  using assms by (simp add: calculate_ydn_def Let_def)

lemma cdn_fillByYMD:
  "cdn (fillByYMD s y m d) =
     calculate_cdn_loop y (ydn (calculate_ydn (s\<lparr>year := y, month := m, day := d\<rparr>)) - 1)"
  by (simp add: fillByYMD_def calculate_time2000_def calculate_dow_def calculate_cdn_def
      calculate_ydn_def Let_def)

lemma time2000_fillByHMS:
  "time2000 (fillByHMS s h m sec) =
     time2000 (calculate_time2000 (s\<lparr>hour := h, minute := m, second := sec\<rparr>))"
  by (simp add: fillByHMS_def Let_def)

lemma fillByCDN_Some:
  assumes "fillByCDN_loop c 2000 = Some (c', y)"
  shows "fillByCDN s c = Some (calculate_time2000 (calculate_day_by_month_year_and_ydn
    (calculate_month_by_year_and_ydn (calculate_dow (s\<lparr>cdn := c, year := y, ydn := c' + 1\<rparr>)))))"
  using assms by (simp add: fillByCDN_def Let_def)

lemma calculate_dow_frame [simp]:
  "year (calculate_dow s) = year s" "ydn (calculate_dow s) = ydn s" "cdn (calculate_dow s) = cdn s"
  "hour (calculate_dow s) = hour s" "minute (calculate_dow s) = minute s"
  "second (calculate_dow s) = second s" "month (calculate_dow s) = month s"
  "day (calculate_dow s) = day s" "time2000 (calculate_dow s) = time2000 s"
  by (simp_all add: calculate_dow_def Let_def)

lemma calculate_time2000_frame [simp]:
  "year (calculate_time2000 s) = year s" "ydn (calculate_time2000 s) = ydn s"
  "cdn (calculate_time2000 s) = cdn s" "hour (calculate_time2000 s) = hour s"
  "minute (calculate_time2000 s) = minute s" "second (calculate_time2000 s) = second s"
  "month (calculate_time2000 s) = month s" "day (calculate_time2000 s) = day s"
  "dow (calculate_time2000 s) = dow s"
  by (simp_all add: calculate_time2000_def Let_def)

lemma calculate_month_frame2 [simp]:
  "cdn (calculate_month_by_year_and_ydn s) = cdn s" "hour (calculate_month_by_year_and_ydn s) = hour s"
  "minute (calculate_month_by_year_and_ydn s) = minute s"
  "second (calculate_month_by_year_and_ydn s) = second s"
  "dow (calculate_month_by_year_and_ydn s) = dow s"
  "time2000 (calculate_month_by_year_and_ydn s) = time2000 s"
  by (simp_all add: calculate_month_by_year_and_ydn_def Let_def)

lemma calculate_day_frame2 [simp]:
  "cdn (calculate_day_by_month_year_and_ydn s) = cdn s" "hour (calculate_day_by_month_year_and_ydn s) = hour s"
  "minute (calculate_day_by_month_year_and_ydn s) = minute s"
  "second (calculate_day_by_month_year_and_ydn s) = second s"
  "dow (calculate_day_by_month_year_and_ydn s) = dow s"
  "time2000 (calculate_day_by_month_year_and_ydn s) = time2000 s"
  by (simp_all add: calculate_day_by_month_year_and_ydn_def Let_def)

text \<open>
  C2. For every epoch-seconds value \<open>t\<close>, \<open>fillByTime2000(t)\<close> returns, and
  \<open>fillByYMD\<close> on the year, month and day it has set followed by \<open>fillByHMS\<close> on
  the hour, minute and second it has set leaves \<open>time2000 = t\<close>, whatever object the
  two are called on. This holds on the whole 32-bit range, which ends in 2136; the
  dates up to the end of 2135 are among them.
\<close>

theorem time2000_roundtrip:
  "\<exists>st1. fillByTime2000 st t = Some st1 \<and>
     time2000 (fillByHMS (fillByYMD st2 (year st1) (month st1) (day st1))
       (hour st1) (minute st1) (second st1)) = t"
proof -
  define c :: u16 where "c = ucast (t div 60 div 60 div 24)"
  define sX where "sX = st\<lparr>time2000 := t, second := ucast (t mod 60),
    minute := ucast (t div 60 mod 60), hour := ucast (t div 60 div 60 mod 24)\<rparr>"
  have ft: "fillByTime2000 st t = fillByCDN sX c"
    by (simp add: fillByTime2000_def Let_def sX_def c_def)
  have "unat t < 4294967296"
    using unsigned_less[of t, where 'a = nat] by simp
  then have "unat t div 60 div 60 div 24 \<le> 49710"
    by arith
  then have cb: "unat (2000 :: u16) + unat c < 65536"
    by (simp add: c_def unat_time_parts)
  from fillByCDN_loop_result[OF _ cb] obtain c' y
    where loop: "fillByCDN_loop c 2000 = Some (c', y)" "c' < 365 + ucast (is_leap_year y)"
      "calculate_cdn_loop y c' = calculate_cdn_loop 2000 c"
    by auto
  define s0 where "s0 = calculate_dow (sX\<lparr>cdn := c, year := y, ydn := c' + 1\<rparr>)"
  define sd where "sd = calculate_day_by_month_year_and_ydn (calculate_month_by_year_and_ydn s0)"
  define st1 where "st1 = calculate_time2000 sd"
  have st1: "fillByTime2000 st t = Some st1"
    by (simp add: ft fillByCDN_Some[OF loop(1)] st1_def sd_def s0_def)
  have s0: "year s0 = y" "ydn s0 = c' + 1"
    by (simp_all add: s0_def)
  from loop(2) have "unat c' < 365 + unat (is_leap_year y)"
    by (simp add: word_less_nat_alt days_per_year_unat)
  with unat_leap_le_1[of y] have "1 \<le> unat (ydn s0)" "unat (ydn s0) \<le> 365 + unat (is_leap_year (year s0))"
    by (simp_all add: s0 unat_add_mod)
  from robertson_forward_inverse[OF this sd_def] have yd: "ydn (calculate_ydn sd) = c' + 1"
    by (simp add: s0)
  have f1: "year st1 = y" "month st1 = month sd" "day st1 = day sd"
    "hour st1 = ucast (t div 60 div 60 mod 24)" "minute st1 = ucast (t div 60 mod 60)"
    "second st1 = ucast (t mod 60)"
    by (simp_all add: st1_def sd_def s0_def sX_def)
  have "ydn (calculate_ydn (st2\<lparr>year := y, month := month sd, day := day sd\<rparr>)) =
    ydn (calculate_ydn sd)"
    by (rule calculate_ydn_cong) (simp_all add: sd_def s0)
  then have "cdn (fillByYMD st2 (year st1) (month st1) (day st1)) = c"
    by (simp add: cdn_fillByYMD f1 yd loop(3) calculate_cdn_loop_stop)
  then have "time2000 (fillByHMS (fillByYMD st2 (year st1) (month st1) (day st1))
       (hour st1) (minute st1) (second st1)) = t"
    unfolding time2000_fillByHMS
    by (intro calculate_time2000_of_parts) (simp_all add: f1 c_def)
  with st1 show ?thesis
    by blast
qed


subsection \<open>Day counts year by year\<close>

lemma year_of_nat:
  assumes "k < 63536"
  shows "unat (2000 + of_nat k :: u16) = 2000 + k"
  using assms by (simp add: unat_add_mod unat_of_nat)

lemma calculate_cdn_loop_days_before:
  assumes "k < 63536"
  shows "calculate_cdn_loop (2000 + of_nat k) c = c + of_nat (days_before k)"
  using assms
proof (induction k arbitrary: c)
  case 0
  show ?case
    by (simp add: calculate_cdn_loop_stop)
next
  case (Suc k)
  let ?y = "2000 + of_nat k :: u16"
  from Suc.prems have k: "k < 63536"
    by simp
  from year_of_nat[OF k] Suc.prems have y: "2000 \<le> ?y" "unat ?y < 65535"
    by (simp_all add: word_le_nat_alt)
  have "calculate_cdn_loop (2000 + of_nat (Suc k)) c = calculate_cdn_loop (?y + 1) c"
    by (simp add: add.assoc add.commute)
  also have "\<dots> = calculate_cdn_loop ?y (c + 365 + ucast (is_leap_year ?y))"
    by (rule calculate_cdn_loop_continue[OF y])
  also have "\<dots> = c + 365 + ucast (is_leap_year ?y) + of_nat (days_before k)"
    by (rule Suc.IH[OF k])
  also have "\<dots> = c + of_nat (days_before (Suc k))"
    by simp
  finally show ?case .
qed

lemma fillByCDN_loop_days_before:
  assumes "unat c + days_before k < 65536"
  shows "fillByCDN_loop (c + of_nat (days_before k)) 2000 = fillByCDN_loop c (2000 + of_nat k)"
  using assms
proof (induction k arbitrary: c)
  case 0
  show ?case
    by simp
next
  case (Suc k)
  let ?y = "2000 + of_nat k :: u16"
  let ?dpy = "(365 :: u16) + ucast (is_leap_year ?y)"
  from Suc.prems have nov: "unat c + unat ?dpy < 65536"
    by (simp add: days_per_year_unat)
  then have u: "unat (c + ?dpy) = unat c + unat ?dpy"
    by (simp add: unat_add_mod[of c])
  with Suc.prems have "unat (c + ?dpy) + days_before k < 65536"
    by (simp add: days_per_year_unat)
  from Suc.IH[OF this]
  have "fillByCDN_loop (c + ?dpy + of_nat (days_before k)) 2000 = fillByCDN_loop (c + ?dpy) ?y" .
  moreover have "c + of_nat (days_before (Suc k)) = c + ?dpy + of_nat (days_before k)"
    by simp
  moreover from u have "?dpy \<le> c + ?dpy"
    by (simp add: word_le_nat_alt)
  from fillByCDN_loop_continue[OF this]
  have "fillByCDN_loop (c + ?dpy) ?y = fillByCDN_loop c (2000 + of_nat (Suc k))"
    by (simp add: add.assoc add.commute)
  ultimately show ?case
    by (simp only:)
qed

lemma days_before_mono: "j \<le> k \<Longrightarrow> days_before j \<le> days_before k"
  by (induction k) (auto simp: le_Suc_eq)

lemma leap_year_mod_4:
  assumes "k < 63536" "is_leap_year (2000 + of_nat k) \<noteq> 0"
  shows "k mod 4 = 0"
proof -
  let ?y = "2000 + of_nat k :: u16"
  from assms(2) have "?y mod 4 = 0 \<or> ?y mod 400 = 0"
    by (auto simp: is_leap_year_def split: if_splits)
  then have "(2000 + k) mod 4 = 0 \<or> (2000 + k) mod 400 = 0"
    by (simp add: word_unat_eq_iff unat_mod year_of_nat[OF assms(1)])
  then have "(2000 + k) mod 4 = 0"
    using mod_mod_cancel[of 4 400 "2000 + k"] by auto
  then show ?thesis
    by presburger
qed

lemma days_before_le:
  assumes "k < 63536"
  shows "days_before k \<le> 365 * k + (k + 3) div 4"
  using assms
proof (induction k)
  case 0
  show ?case by simp
next
  case (Suc k)
  then have k: "k < 63536" and IH: "days_before k \<le> 365 * k + (k + 3) div 4"
    by simp_all
  show ?case
  proof (cases "is_leap_year (2000 + of_nat k) = 0")
    case True
    with IH show ?thesis by simp
  next
    case False
    from leap_year_mod_4[OF k False] have "(k + 3) div 4 + 1 \<le> (Suc k + 3) div 4"
      by presburger
    moreover from False leap_cases[of "2000 + of_nat k"] have "unat (is_leap_year (2000 + of_nat k)) = 1"
      by auto
    ultimately show ?thesis
      using IH by simp
  qed
qed



lemma fillByYMD_fields:
  "ydn (fillByYMD s y m d) = ydn (calculate_ydn (s\<lparr>year := y, month := m, day := d\<rparr>))"
  "dow (fillByYMD s y m d) = dow (calculate_dow (fillByYMD s y m d))"
  "year (fillByYMD s y m d) = y" "month (fillByYMD s y m d) = m" "day (fillByYMD s y m d) = d"
  by (simp_all add: fillByYMD_def calculate_time2000_def calculate_dow_def calculate_cdn_def
      calculate_ydn_def Let_def)

lemma fillByHMS_fields:
  "ydn (fillByHMS s h m sec) = ydn s" "cdn (fillByHMS s h m sec) = cdn s"
  "dow (fillByHMS s h m sec) = dow s" "year (fillByHMS s h m sec) = year s"
  "month (fillByHMS s h m sec) = month s" "day (fillByHMS s h m sec) = day s"
  "hour (fillByHMS s h m sec) = h" "minute (fillByHMS s h m sec) = m"
  "second (fillByHMS s h m sec) = sec"
  by (simp_all add: fillByHMS_def Let_def)

lemma consistent_derived:
  assumes "consistent st"
  shows "ydn st = ydn (calculate_ydn st)"
    and "cdn st = calculate_cdn_loop (year st) (ydn st - 1)"
    and "dow st = dow (calculate_dow st)"
    and "time2000 st = time2000 (calculate_time2000 st)"
proof -
  let ?F = "fillByHMS (fillByYMD st (year st) (month st) (day st)) (hour st) (minute st) (second st)"
  from assms have F: "?F = st"
    by (simp add: consistent_def)
  have "ydn ?F = ydn (calculate_ydn st)"
    by (simp add: fillByHMS_fields fillByYMD_fields)
  with F show y: "ydn st = ydn (calculate_ydn st)"
    by simp
  have "cdn ?F = calculate_cdn_loop (year st) (ydn (calculate_ydn st) - 1)"
    by (simp add: fillByHMS_fields cdn_fillByYMD)
  with F y show c: "cdn st = calculate_cdn_loop (year st) (ydn st - 1)"
    by simp
  have "dow ?F = dow (calculate_dow ?F)"
    by (simp add: fillByHMS_fields fillByYMD_fields calculate_dow_def Let_def cdn_fillByYMD)
  with F show "dow st = dow (calculate_dow st)"
    by simp
  have "time2000 ?F = time2000 (calculate_time2000 ?F)"
    by (simp add: fillByHMS_def Let_def calculate_time2000_def)
  with F show "time2000 st = time2000 (calculate_time2000 st)"
    by simp
qed


lemma calculate_time2000_cong:
  assumes "cdn s = cdn s'" "hour s = hour s'" "minute s = minute s'" "second s = second s'"
  shows "time2000 (calculate_time2000 s) = time2000 (calculate_time2000 s')"
  using assms by (simp add: calculate_time2000_def Let_def)

lemma calculate_dow_cong:
  assumes "cdn s = cdn s'"
  shows "dow (calculate_dow s) = dow (calculate_dow s')"
  using assms by (simp add: calculate_dow_def Let_def)

lemma nat_time_parts:
  fixes C H MI S :: nat
  assumes "H < 24" "MI < 60" "S < 60" "T = ((C * 24 + H) * 60 + MI) * 60 + S"
  shows "T mod 60 = S" "T div 60 mod 60 = MI" "T div 60 div 60 mod 24 = H" "T div 60 div 60 div 24 = C"
proof -
  define Y where "Y = C * 24 + H"
  define X where "X = Y * 60 + MI"
  have T: "T = X * 60 + S"
    by (simp add: assms(4) X_def Y_def)
  from assms(3) show "T mod 60 = S"
    by (simp add: T)
  from assms(3) have X: "T div 60 = X"
    by (simp add: T)
  from assms(2) show "T div 60 mod 60 = MI"
    by (simp add: X) (simp add: X_def)
  from assms(2) have Y: "X div 60 = Y"
    by (simp add: X_def)
  from assms(1) show "T div 60 div 60 mod 24 = H" "T div 60 div 60 div 24 = C"
    by (simp_all add: X Y) (simp_all add: Y_def)
qed

lemma days_before_le_135:
  assumes "k \<le> 135"
  shows "days_before k \<le> 49309"
  using days_before_mono[OF assms] days_before_le[of 135] by simp

lemma calendar_frame [simp]:
  "ctrl (calculate_time2000 s) = ctrl s" "alarmTriggeredTime (calculate_time2000 s) = alarmTriggeredTime s"
  "chip_ack (calculate_time2000 s) = chip_ack s" "chip_reg (calculate_time2000 s) = chip_reg s"
  "ctrl (calculate_dow s) = ctrl s" "alarmTriggeredTime (calculate_dow s) = alarmTriggeredTime s"
  "chip_ack (calculate_dow s) = chip_ack s" "chip_reg (calculate_dow s) = chip_reg s"
  "ctrl (calculate_month_by_year_and_ydn s) = ctrl s"
  "alarmTriggeredTime (calculate_month_by_year_and_ydn s) = alarmTriggeredTime s"
  "chip_ack (calculate_month_by_year_and_ydn s) = chip_ack s"
  "chip_reg (calculate_month_by_year_and_ydn s) = chip_reg s"
  "ctrl (calculate_day_by_month_year_and_ydn s) = ctrl s"
  "alarmTriggeredTime (calculate_day_by_month_year_and_ydn s) = alarmTriggeredTime s"
  "chip_ack (calculate_day_by_month_year_and_ydn s) = chip_ack s"
  "chip_reg (calculate_day_by_month_year_and_ydn s) = chip_reg s"
  by (simp_all add: calculate_time2000_def calculate_dow_def calculate_month_by_year_and_ydn_def
      calculate_day_by_month_year_and_ydn_def Let_def)

lemma fillByTime2000_restore:
  assumes con: "consistent st"
    and rest: "ctrl s = ctrl st" "alarmTriggeredTime s = alarmTriggeredTime st"
      "chip_ack s = chip_ack st" "chip_reg s = chip_reg st"
  shows "fillByTime2000 s (time2000 st) = Some st"
proof -
  define y where "y = year st"
  define k where "k = unat y - 2000"
  define l where "l = unat (is_leap_year y)"
  define c0 where "c0 = ydn st - 1"
  define t where "t = time2000 st"
  note der = consistent_derived[OF con]
  from con have rng: "2000 \<le> y" "y \<le> 2135" "1 \<le> month st" "month st \<le> 12" "1 \<le> day st"
    "day st \<le> days_in_month y (month st)" "hour st < 24" "minute st < 60" "second st < 60"
    by (simp_all add: consistent_def y_def)
  from rng(1,2) have k: "k \<le> 135" "k < 63536" and yk: "y = 2000 + of_nat k"
    by (simp_all add: k_def word_le_nat_alt word_unat_eq_iff unat_add_mod unat_of_nat)
  have st1: "calculate_ydn st = calculate_ydn (st\<lparr>year := y, month := month st, day := day st\<rparr>)"
    by (simp add: y_def)
  have inv: "month (calculate_day_by_month_year_and_ydn (calculate_month_by_year_and_ydn sa)) = month st \<and>
      day (calculate_day_by_month_year_and_ydn (calculate_month_by_year_and_ydn sa)) = day st \<and>
      1 \<le> unat (ydn st) \<and> unat (ydn st) \<le> 365 + l"
    if "ydn sa = ydn st" "year sa = y" for sa
  proof -
    from that(1) der(1) have "ydn sa = ydn (calculate_ydn st)"
      by simp
    from robertson_inverse_forward[OF rng(3-6) st1 this that(2) refl] show ?thesis
      by (simp add: l_def der(1)[symmetric])
  qed
  from inv[of st] have n: "1 \<le> unat (ydn st)" "unat (ydn st) \<le> 365 + l"
    by (simp_all add: y_def)
  then have c0: "unat c0 = unat (ydn st) - 1" "c0 + 1 = ydn st"
    by (simp_all add: c0_def unat_sub_if' word_le_nat_alt)
  with n have c0l: "c0 < 365 + ucast (is_leap_year y)"
    by (simp add: word_less_nat_alt days_per_year_unat l_def)
  have l: "l \<le> 1"
    using unat_leap_le_1[of y] by (simp add: l_def)
  from c0 n l days_before_le_135[OF k(1)] have cb: "unat c0 + days_before k \<le> 49674"
    by simp
  have cdn: "cdn st = c0 + of_nat (days_before k)"
    using calculate_cdn_loop_days_before[OF k(2), of c0] by (simp add: der(2) y_def[symmetric] yk c0_def)
  from cb have C: "unat (cdn st) = unat c0 + days_before k"
    by (simp add: cdn unat_add_mod unat_of_nat)
  from rng(7-9) have hms: "unat (hour st) < 24" "unat (minute st) < 60" "unat (second st) < 60"
    by (simp_all add: word_less_nat_alt)
  from C cb hms have T: "unat t =
    ((unat (cdn st) * 24 + unat (hour st)) * 60 + unat (minute st)) * 60 + unat (second st)"
    unfolding t_def der(4) by (intro unat_calculate_time2000) simp_all
  note parts = nat_time_parts[OF hms T]
  have dec: "ucast (t mod 60) = second st" "ucast (t div 60 mod 60) = minute st"
    "ucast (t div 60 div 60 mod 24) = hour st" "ucast (t div 60 div 60 div 24) = cdn st"
    by (simp_all add: word_unat_eq_iff unat_time_parts unat_div parts)
  define sX where "sX = s\<lparr>time2000 := t, second := second st, minute := minute st, hour := hour st\<rparr>"
  have ft: "fillByTime2000 s t = fillByCDN sX (cdn st)"
    by (simp add: fillByTime2000_def Let_def sX_def dec)
  from cb have "fillByCDN_loop (cdn st) 2000 = fillByCDN_loop c0 y"
    unfolding cdn yk by (intro fillByCDN_loop_days_before) simp
  also have "\<dots> = Some (c0, y)"
    by (rule fillByCDN_loop_stop[OF c0l])
  finally have loop: "fillByCDN_loop (cdn st) 2000 = Some (c0, y)" .
  define s0 where "s0 = calculate_dow (sX\<lparr>cdn := cdn st, year := y, ydn := c0 + 1\<rparr>)"
  define sd where "sd = calculate_day_by_month_year_and_ydn (calculate_month_by_year_and_ydn s0)"
  have R: "fillByTime2000 s t = Some (calculate_time2000 sd)"
    by (simp add: ft fillByCDN_Some[OF loop] sd_def s0_def)
  have s0: "ydn s0 = ydn st" "year s0 = y"
    by (simp_all add: s0_def c0)
  from inv[OF s0] have md: "month sd = month st" "day sd = day st"
    by (simp_all add: sd_def)
  have "calculate_time2000 sd = st"
  proof (rule DS1307new.equality)
    show "second (calculate_time2000 sd) = second st" "minute (calculate_time2000 sd) = minute st"
      "hour (calculate_time2000 sd) = hour st"
      by (simp_all add: sd_def s0_def sX_def)
    show "dow (calculate_time2000 sd) = dow st"
      unfolding der(3) by (simp add: sd_def s0_def) (rule calculate_dow_cong, simp)
    show "day (calculate_time2000 sd) = day st" "month (calculate_time2000 sd) = month st"
      by (simp_all add: md)
    show "year (calculate_time2000 sd) = year st" "ydn (calculate_time2000 sd) = ydn st"
      "cdn (calculate_time2000 sd) = cdn st"
      by (simp_all add: sd_def s0 y_def) (simp add: s0_def)
    show "ctrl (calculate_time2000 sd) = ctrl st"
      "alarmTriggeredTime (calculate_time2000 sd) = alarmTriggeredTime st"
      "chip_ack (calculate_time2000 sd) = chip_ack st" "chip_reg (calculate_time2000 sd) = chip_reg st"
      by (simp_all add: sd_def s0_def sX_def rest)
    show "time2000 (calculate_time2000 sd) = time2000 st"
      unfolding der(4) by (rule calculate_time2000_cong) (simp_all add: sd_def s0_def sX_def)
  qed simp
  with R show ?thesis
    by (simp add: t_def)
qed


subsection \<open>The daylight-saving query\<close>

lemma fillBy_frame [simp]:
  "ctrl (fillByYMD s y m d) = ctrl s" "alarmTriggeredTime (fillByYMD s y m d) = alarmTriggeredTime s"
  "chip_ack (fillByYMD s y m d) = chip_ack s" "chip_reg (fillByYMD s y m d) = chip_reg s"
  "ctrl (fillByHMS s h mi sec) = ctrl s" "alarmTriggeredTime (fillByHMS s h mi sec) = alarmTriggeredTime s"
  "chip_ack (fillByHMS s h mi sec) = chip_ack s" "chip_reg (fillByHMS s h mi sec) = chip_reg s"
  by (simp_all add: fillByYMD_def fillByHMS_def calculate_ydn_def calculate_cdn_def Let_def)

lemma fillByCDN_frame:
  assumes "fillByCDN s c = Some s'"
  shows "ctrl s' = ctrl s" "alarmTriggeredTime s' = alarmTriggeredTime s"
    "chip_ack s' = chip_ack s" "chip_reg s' = chip_reg s"
  using assms by (auto simp: fillByCDN_def Let_def split: option.splits)

text \<open>
  C7. On every mutually consistent object, \<open>isCETSummerTime\<close> returns and leaves
  the object as it was: every field (year, month, day, hour, minute, second, dow,
  ydn, cdn, time2000, and the fields outside date and time) has the value it had
  before the call.
\<close>

theorem isCETSummerTime_restores:
  assumes "consistent st"
  shows "map_option fst (isCETSummerTime st) = Some st"
proof -
  define s1 where "s1 = fillByHMS (fillByYMD st (year st) 3 30) 2 0 0"
  obtain s2 where s2: "fillByCDN s1 (cdn s1 - ucast (dow s1)) = Some s2"
    using fillByCDN_returns by blast
  define s3 where "s3 = fillByHMS (fillByYMD s2 (year s2) 10 31) 3 0 0"
  obtain s4 where s4: "fillByCDN s3 (cdn s3 - ucast (dow s3)) = Some s4"
    using fillByCDN_returns by blast
  have "ctrl s4 = ctrl st" "alarmTriggeredTime s4 = alarmTriggeredTime st"
    "chip_ack s4 = chip_ack st" "chip_reg s4 = chip_reg st"
    by (simp_all add: fillByCDN_frame[OF s4] s3_def fillByCDN_frame[OF s2] s1_def)
  from fillByTime2000_restore[OF assms this] have "fillByTime2000 s4 (time2000 st) = Some st" .
  with s2 s4 show ?thesis
    by (simp add: isCETSummerTime_def Let_def s1_def[symmetric] s3_def[symmetric])
qed

lemma consistent_example: "consistent RTC_2001_07_04"
  by (simp add: consistent_def RTC_2001_07_04_def days_in_month_def fillByHMS_def fillByYMD_def
      calculate_ydn_def calculate_cdn_def calculate_dow_def calculate_time2000_def
      calculate_cdn_loop.simps is_leap_year_def Let_def)

theorem isCETSummerTime_restores_witness:
  "consistent RTC_2001_07_04 \<and> map_option fst (isCETSummerTime RTC_2001_07_04) = Some RTC_2001_07_04"
  using isCETSummerTime_restores[OF consistent_example] consistent_example by simp


end
